theory Spec2Isabelle
  imports Main
begin

section \<open>The background-task hook of solara/hooks/use\_thread.py\<close>

text \<open>
  The hook \<^verbatim>\<open>use_thread\<close> starts one operating-system thread per call of its inner
  function \<^verbatim>\<open>run\<close>; the threads share four cells (the state, the result, the error and
  \<^verbatim>\<open>running_thread.current\<close>) and a lock.  The model is an interleaving semantics: every
  read or write of a shared cell by \<^verbatim>\<open>runner\<close> is one atomic step of the thread that
  performs it, the program counter of a thread names the source line of its next step, and a
  schedule (a list of actions) picks which thread or which part of the environment moves next.

  What the model takes from outside the source file: the cells made by \<^verbatim>\<open>use_state\<close> and
  \<^verbatim>\<open>use_ref\<close> are plain cells, written atomically; \<^verbatim>\<open>use_memo\<close> and \<^verbatim>\<open>use_side_effect\<close>
  are given the same key (the dependencies and the retry counter, lines 51 and 170), so every
  call of \<^verbatim>\<open>run\<close> has a cancellation event of its own; \<^verbatim>\<open>inspect.signature\<close> (line 114)
  does not raise; user code does not catch the abort signal.
\<close>

subsection \<open>Data\<close>

text \<open>
  Modelled from the spec: the enumeration \<^verbatim>\<open>ResultState\<close> of \<^verbatim>\<open>solara.datatypes\<close> is
  imported by the source and not part of it; the spec lists its seven members.
\<close>

datatype ResultState = INITIAL | STARTING | WAITING | RUNNING | FINISHED | ERROR | CANCELLED

type_synonym tid = nat

text \<open>
  Exception objects by class.  \<^verbatim>\<open>CancelledError\<close> inherits from \<^verbatim>\<open>BaseException\<close>
  (line 22); \<^verbatim>\<open>StopIteration\<close> and every \<open>Exception e\<close> are instances of Python's
  \<^verbatim>\<open>Exception\<close>; \<open>BaseException\<close> stands for any other exception that is not one.
\<close>

datatype 'e exn = CancelledError | StopIteration | Exception 'e | BaseException

fun is_Exception :: "'e exn \<Rightarrow> bool" where
  "is_Exception CancelledError = False"
| "is_Exception StopIteration = True"
| "is_Exception (Exception e) = True"
| "is_Exception BaseException = False"

text \<open>
  The user's callback is a parameter of the hook.  One invocation of it is described by what
  the runner can see of it: the number of trace events (\<^verbatim>\<open>tracefunc\<close> is called at least
  once per executed line) before the call ends, and how it ends.  A generator is the list of
  items it yields, each with the number of trace events of the \<^verbatim>\<open>next\<close> call producing it,
  and the final \<^verbatim>\<open>next\<close> call, which raises (\<open>StopIteration\<close> on exhaustion).
\<close>

datatype ('v, 'e) generator = Generator "(nat \<times> 'v) list" nat "'e exn"

datatype ('v, 'e) returned = Value 'v | Gen "('v, 'e) generator"

datatype ('v, 'e) ending = Returns "('v, 'e) returned" | Raises "'e exn"

datatype ('v, 'e) callback = Callback nat "('v, 'e) ending"

fun next_steps :: "('v, 'e) generator \<Rightarrow> nat" where
  "next_steps (Generator [] m x) = m"
| "next_steps (Generator ((k, v) # items) m x) = k"

text \<open>Program counters of \<^verbatim>\<open>runner\<close>: the source line of the thread's next step.\<close>

datatype pc =
    L91 | L95 | L96 | L97 | L97_exit | L99 | L102 | L105 | L112
  | L126 | L131 | L132 | L132_exit | L136 | L137 | L138
  | L140 | L141 | L142 | L143 | L145 | L146 | L147 | L148
  | L155 | L156 | L157 | L158 | L159 | Done

text \<open>
  What one thread owns: the variables of the closure it was started with (\<open>callback\<close>,
  \<open>intrusive_cancel\<close>, and \<open>cancel\<close>, the \<^verbatim>\<open>threading.Event\<close> of its run, which the
  environment sets) and the locals of \<^verbatim>\<open>runner\<close>.
\<close>

record ('v, 'e) thread =
  pc :: pc
  callback :: "('v, 'e) callback"
  intrusive_cancel :: bool
  cancel :: bool
  wait_for_thread :: "tid option"
  steps_left :: nat
  f_value :: "'v option"
  gen :: "('v, 'e) generator option"
  exc :: "'e exn option"

text \<open>
  The cells all threads share: the lock, \<^verbatim>\<open>running_thread.current\<close>, the state set by
  \<^verbatim>\<open>set_result_state\<close>, \<^verbatim>\<open>result.current\<close>, \<^verbatim>\<open>error.current\<close>; and two facts of the
  environment a thread reads: the render context (\<open>None\<close>, or whether it is rendering) and
  whether the interpreter has \<^verbatim>\<open>sys.settrace\<close>.
\<close>

record ('v, 'e) shared =
  lock :: bool
  running_thread :: "tid option"
  result_state :: ResultState
  result :: "'v option"
  error :: "'e exn option"
  rc :: "bool option"
  settrace :: bool

text \<open>What a step does, as seen from outside.\<close>

datatype ('v, 'e) event =
    Acquire | Test_current bool | Copy_current "tid option" | Set_current | Release
  | Set_state ResultState | Join tid | Is_current bool
  | Hook_raise | User_step | Guard_exit
  | Set_result "'v option" | Set_error "'e exn option" | Updater
  | Log_exception "'e exn option" | Log_info | Clear_current | Is_set bool

subsection \<open>The execution monitor (lines 53 to 84)\<close>

text \<open>
  \<open>tracefunc is_set r\<close> is true when the trace function raises \<^verbatim>\<open>CancelledError\<close>
  (lines 61 to 66).  The call of a previous tracer (line 67) happens only under
  \<^verbatim>\<open>SOLARA_ALLOW_OTHER_TRACER\<close>, which is off unless the environment sets it, and is left out.
\<close>

definition tracefunc :: "bool \<Rightarrow> bool option \<Rightarrow> bool" where
  "tracefunc is_set r =
     (if is_set then (case r of None \<Rightarrow> True | Some is_rendering \<Rightarrow> \<not> is_rendering)
      else False)"

text \<open>
  \<^verbatim>\<open>cancel_guard\<close> installs the trace function only when \<open>intrusive_cancel\<close> holds
  (line 55) and the interpreter has \<^verbatim>\<open>sys.settrace\<close> (line 78).
\<close>

definition hook :: "('v, 'e) thread \<Rightarrow> ('v, 'e) shared \<Rightarrow> bool" where
  "hook th sh = (intrusive_cancel th \<and> settrace sh \<and> tracefunc (cancel th) (rc sh))"

text \<open>
  The except clauses of the outer try statement (lines 144 to 153), in their order:
  an \<^verbatim>\<open>Exception\<close> goes to line 145; \<^verbatim>\<open>CancelledError\<close> is passed over and any other
  exception propagates, both through the finally clause at line 155.
\<close>

definition handler :: "'e exn \<Rightarrow> ('v, 'e) thread \<Rightarrow> ('v, 'e) thread" where
  "handler x th =
     (if is_Exception x then th\<lparr>pc := L145, exc := Some x\<rparr> else th\<lparr>pc := L155\<rparr>)"

subsection \<open>One step of a thread\<close>

text \<open>
  \<open>thread_step t terminated th sh\<close>: the next atomic step of thread \<open>t\<close> with locals
  \<open>th\<close> on the shared cells \<open>sh\<close>; \<open>None\<close> when the thread is blocked (on the lock, or
  in \<^verbatim>\<open>join\<close>) or has returned.  Inside a \<^verbatim>\<open>cancel_guard\<close> block every step passes
  the trace function first; the step with no trace events left is the exit of the block
  (the context manager's exit is Python code and is traced like the user's).  At line 131
  the item is stored as soon as \<^verbatim>\<open>next\<close> returns it; the block is left after line 132.
  An exception raised in a block is dispatched by \<open>handler\<close> when the block is left.
\<close>

definition thread_step ::
  "tid \<Rightarrow> (tid \<Rightarrow> bool) \<Rightarrow> ('v, 'e) thread \<Rightarrow> ('v, 'e) shared \<Rightarrow>
     (('v, 'e) event \<times> ('v, 'e) thread \<times> ('v, 'e) shared) option" where
  "thread_step t terminated th sh =
    (case pc th of
       L91 \<Rightarrow> if lock sh then None else Some (Acquire, th\<lparr>pc := L95\<rparr>, sh\<lparr>lock := True\<rparr>)
     | L95 \<Rightarrow>
         (case running_thread sh of
            None \<Rightarrow> Some (Test_current False, th\<lparr>pc := L97\<rparr>, sh)
          | Some w \<Rightarrow> Some (Test_current True, th\<lparr>pc := L96\<rparr>, sh))
     | L96 \<Rightarrow>
         Some (Copy_current (running_thread sh),
               th\<lparr>pc := L97, wait_for_thread := running_thread sh\<rparr>, sh)
     | L97 \<Rightarrow> Some (Set_current, th\<lparr>pc := L97_exit\<rparr>, sh\<lparr>running_thread := Some t\<rparr>)
     | L97_exit \<Rightarrow>
         Some (Release, th\<lparr>pc := (if wait_for_thread th = None then L112 else L99)\<rparr>,
               sh\<lparr>lock := False\<rparr>)
     | L99 \<Rightarrow> Some (Set_state WAITING, th\<lparr>pc := L102\<rparr>, sh\<lparr>result_state := WAITING\<rparr>)
     | L102 \<Rightarrow>
         (case wait_for_thread th of
            None \<Rightarrow> None
          | Some w \<Rightarrow> if terminated w then Some (Join w, th\<lparr>pc := L105\<rparr>, sh) else None)
     | L105 \<Rightarrow>
         (if running_thread sh = Some t then Some (Is_current True, th\<lparr>pc := L112\<rparr>, sh)
          else Some (Is_current False, th\<lparr>pc := Done\<rparr>, sh))
     | L112 \<Rightarrow>
         Some (Set_state RUNNING,
               th\<lparr>pc := L126, steps_left := (case callback th of Callback k r \<Rightarrow> k)\<rparr>,
               sh\<lparr>result_state := RUNNING\<rparr>)
     | L126 \<Rightarrow>
         (if hook th sh then Some (Hook_raise, handler CancelledError th, sh)
          else (case steps_left th of
                  Suc n \<Rightarrow> Some (User_step, th\<lparr>steps_left := n\<rparr>, sh)
                | 0 \<Rightarrow>
                   (case callback th of
                      Callback k (Raises x) \<Rightarrow> Some (Guard_exit, handler x th, sh)
                    | Callback k (Returns (Value v)) \<Rightarrow>
                        Some (Guard_exit, th\<lparr>pc := L140, f_value := Some v\<rparr>, sh)
                    | Callback k (Returns (Gen g)) \<Rightarrow>
                        Some (Guard_exit,
                              th\<lparr>pc := L131, steps_left := next_steps g, gen := Some g\<rparr>, sh))))
     | L131 \<Rightarrow>
         (if hook th sh then Some (Hook_raise, handler CancelledError th, sh)
          else (case steps_left th of
                  Suc n \<Rightarrow> Some (User_step, th\<lparr>steps_left := n\<rparr>, sh)
                | 0 \<Rightarrow>
                   (case gen th of
                      None \<Rightarrow> None
                    | Some (Generator [] m x) \<Rightarrow>
                        (if x = StopIteration then Some (Guard_exit, th\<lparr>pc := L137\<rparr>, sh)
                         else Some (Guard_exit, handler x th, sh))
                    | Some (Generator ((k, v) # items) m x) \<Rightarrow>
                        Some (Set_result (Some v),
                              th\<lparr>pc := L132, gen := Some (Generator items m x)\<rparr>,
                              sh\<lparr>result := Some v\<rparr>))))
     | L132 \<Rightarrow> Some (Set_error None, th\<lparr>pc := L132_exit\<rparr>, sh\<lparr>error := None\<rparr>)
     | L132_exit \<Rightarrow>
         (if hook th sh then Some (Hook_raise, handler CancelledError th, sh)
          else Some (Guard_exit, th\<lparr>pc := L136\<rparr>, sh))
     | L136 \<Rightarrow>
         Some (Updater,
               th\<lparr>pc := L131,
                  steps_left := (case gen th of None \<Rightarrow> 0 | Some g \<Rightarrow> next_steps g)\<rparr>, sh)
     | L137 \<Rightarrow>
         (if running_thread sh = Some t then Some (Is_current True, th\<lparr>pc := L138\<rparr>, sh)
          else Some (Is_current False, th\<lparr>pc := L155\<rparr>, sh))
     | L138 \<Rightarrow> Some (Set_state FINISHED, th\<lparr>pc := L155\<rparr>, sh\<lparr>result_state := FINISHED\<rparr>)
     | L140 \<Rightarrow> Some (Set_result (f_value th), th\<lparr>pc := L141\<rparr>, sh\<lparr>result := f_value th\<rparr>)
     | L141 \<Rightarrow> Some (Set_error None, th\<lparr>pc := L142\<rparr>, sh\<lparr>error := None\<rparr>)
     | L142 \<Rightarrow>
         (if running_thread sh = Some t then Some (Is_current True, th\<lparr>pc := L143\<rparr>, sh)
          else Some (Is_current False, th\<lparr>pc := L155\<rparr>, sh))
     | L143 \<Rightarrow> Some (Set_state FINISHED, th\<lparr>pc := L155\<rparr>, sh\<lparr>result_state := FINISHED\<rparr>)
     | L145 \<Rightarrow> Some (Set_error (exc th), th\<lparr>pc := L146\<rparr>, sh\<lparr>error := exc th\<rparr>)
     | L146 \<Rightarrow>
         (if running_thread sh = Some t then Some (Is_current True, th\<lparr>pc := L147\<rparr>, sh)
          else Some (Is_current False, th\<lparr>pc := L155\<rparr>, sh))
     | L147 \<Rightarrow> Some (Log_exception (exc th), th\<lparr>pc := L148\<rparr>, sh)
     | L148 \<Rightarrow> Some (Set_state ERROR, th\<lparr>pc := L155\<rparr>, sh\<lparr>result_state := ERROR\<rparr>)
     | L155 \<Rightarrow>
         (if running_thread sh = Some t then Some (Is_current True, th\<lparr>pc := L156\<rparr>, sh)
          else Some (Is_current False, th\<lparr>pc := Done\<rparr>, sh))
     | L156 \<Rightarrow> Some (Clear_current, th\<lparr>pc := L157\<rparr>, sh\<lparr>running_thread := None\<rparr>)
     | L157 \<Rightarrow> Some (Log_info, th\<lparr>pc := L158\<rparr>, sh)
     | L158 \<Rightarrow> Some (Is_set (cancel th), th\<lparr>pc := (if cancel th then L159 else Done)\<rparr>, sh)
     | L159 \<Rightarrow> Some (Set_state CANCELLED, th\<lparr>pc := Done\<rparr>, sh\<lparr>result_state := CANCELLED\<rparr>)
     | Done \<Rightarrow> None)"

subsection \<open>The system: threads, environment, schedules\<close>

record ('v, 'e) config =
  mem :: "('v, 'e) shared"
  threads :: "('v, 'e) thread list"

text \<open>
  Actions: \<open>Run cb i\<close> is a call of \<^verbatim>\<open>run\<close> (lines 86 to 168) by the rendering side with the
  closure's callback and \<open>intrusive_cancel\<close>; \<open>Cancel t\<close> sets the event of run \<open>t\<close>
  (\<^verbatim>\<open>cleanup\<close>, line 166, or the \<^verbatim>\<open>cancel\<close> of the returned \<^verbatim>\<open>Result\<close>, line 171);
  \<open>Render r\<close> changes the render context; \<open>Step t\<close> lets thread \<open>t\<close> take its next step.
\<close>

datatype ('v, 'e) action = Run "('v, 'e) callback" bool | Cancel tid | Render "bool option" | Step tid

datatype ('v, 'e) entry = By tid pc "('v, 'e) event" | Env "('v, 'e) action"

definition terminated :: "('v, 'e) config \<Rightarrow> tid \<Rightarrow> bool" where
  "terminated c w = (w < length (threads c) \<and> pc (threads c ! w) = Done)"

definition new_thread :: "('v, 'e) callback \<Rightarrow> bool \<Rightarrow> ('v, 'e) thread" where
  "new_thread cb i =
     \<lparr>pc = L91, callback = cb, intrusive_cancel = i, cancel = False, wait_for_thread = None,
      steps_left = 0, f_value = None, gen = None, exc = None\<rparr>"

fun step :: "('v, 'e) action \<Rightarrow> ('v, 'e) config \<Rightarrow> (('v, 'e) entry \<times> ('v, 'e) config) option" where
  "step (Run cb i) c =
     Some (Env (Run cb i),
           \<lparr>mem = (mem c)\<lparr>result_state := STARTING\<rparr>, threads = threads c @ [new_thread cb i]\<rparr>)"
| "step (Cancel t) c =
     (if t < length (threads c)
      then Some (Env (Cancel t),
                 \<lparr>mem = mem c, threads = (threads c)[t := (threads c ! t)\<lparr>cancel := True\<rparr>]\<rparr>)
      else None)"
| "step (Render r) c = Some (Env (Render r), \<lparr>mem = (mem c)\<lparr>rc := r\<rparr>, threads = threads c\<rparr>)"
| "step (Step t) c =
     (if t < length (threads c)
      then (case thread_step t (terminated c) (threads c ! t) (mem c) of
              None \<Rightarrow> None
            | Some (e, th', sh') \<Rightarrow>
                Some (By t (pc (threads c ! t)) e, \<lparr>mem = sh', threads = (threads c)[t := th']\<rparr>))
      else None)"

fun exec ::
  "('v, 'e) action list \<Rightarrow> ('v, 'e) config \<Rightarrow> (('v, 'e) entry list \<times> ('v, 'e) config) option" where
  "exec [] c = Some ([], c)"
| "exec (a # as) c =
     (case step a c of
        None \<Rightarrow> None
      | Some (e, c') \<Rightarrow>
          (case exec as c' of None \<Rightarrow> None | Some (tr, c'') \<Rightarrow> Some (e # tr, c'')))"

text \<open>The hook before its first run; the parameter says whether \<^verbatim>\<open>sys.settrace\<close> exists.\<close>

definition init :: "bool \<Rightarrow> ('v, 'e) config" where
  "init st =
     \<lparr>mem = \<lparr>lock = False, running_thread = None, result_state = INITIAL, result = None,
             error = None, rc = None, settrace = st\<rparr>,
      threads = []\<rparr>"


subsection \<open>Traces\<close>

text \<open>\<open>hist t tr\<close>: the steps of thread \<open>t\<close> in the trace \<open>tr\<close>, in order, each with the line
  it was taken at.\<close>

fun hist :: "tid \<Rightarrow> ('v, 'e) entry list \<Rightarrow> (pc \<times> ('v, 'e) event) list" where
  "hist t [] = []"
| "hist t (By u p ev # tr) = (if u = t then (p, ev) # hist t tr else hist t tr)"
| "hist t (Env a # tr) = hist t tr"

subsection \<open>Auxiliary notions\<close>





text \<open>
  The events of a thread before its check at line 105: taking the pointer under the lock,
  setting the state to \<open>WAITING\<close>, joining its predecessor.
\<close>

fun early_event :: "('v, 'e) event \<Rightarrow> bool" where
  "early_event Acquire = True"
| "early_event (Test_current b) = True"
| "early_event (Copy_current w) = True"
| "early_event Set_current = True"
| "early_event Release = True"
| "early_event (Set_state s) = (s = WAITING)"
| "early_event (Join w) = True"
| "early_event ev = False"

definition before_check :: "pc \<Rightarrow> bool" where
  "before_check p = (p \<in> {L91, L95, L96, L97, L97_exit, L99, L102, L105})"

text \<open>The invariant of a thread's own steps used for claim C8.\<close>

definition waiting_inv :: "(pc \<times> ('v, 'e) event) list \<Rightarrow> ('v, 'e) thread \<Rightarrow> bool" where
  "waiting_inv h th =
     ((before_check (pc th) \<longrightarrow> (\<forall>x \<in> set h. early_event (snd x))) \<and>
      (pc th = L105 \<longrightarrow> (\<exists>w. (L102, Join w) \<in> set h)))"

text \<open>
  \<open>last_check h\<close>: the outcome of the most recent identity check
  (\<^verbatim>\<open>threading.current_thread() == running_thread.current\<close>) among the steps \<open>h\<close> of a
  thread; \<open>checked p\<close>: the lines a thread reaches only through a check that succeeded.
\<close>

fun check_outcome :: "('v, 'e) event \<Rightarrow> bool option" where
  "check_outcome (Is_current b) = Some b"
| "check_outcome ev = None"

fun last_check :: "(pc \<times> ('v, 'e) event) list \<Rightarrow> bool option" where
  "last_check [] = None"
| "last_check (x # xs) =
     (case last_check xs of Some b \<Rightarrow> Some b | None \<Rightarrow> check_outcome (snd x))"

definition checked :: "pc \<Rightarrow> bool" where
  "checked p = (p \<in> {L138, L143, L147, L148, L156, L157, L158, L159})"

text \<open>
  \<open>is_write ev\<close>: the step sets the state, the result or the error; \<open>stored_self p\<close>: the
  lines after the thread has stored itself in \<^verbatim>\<open>running_thread.current\<close> (line 97).
\<close>

fun is_write :: "('v, 'e) event \<Rightarrow> bool" where
  "is_write (Set_state s) = True"
| "is_write (Set_result v) = True"
| "is_write (Set_error x) = True"
| "is_write ev = False"

definition stored_self :: "pc \<Rightarrow> bool" where
  "stored_self p = (p \<notin> {L91, L95, L96, L97})"

text \<open>The invariant of a thread's own steps used for claim C1.\<close>

definition guard_inv :: "(pc \<times> ('v, 'e) event) list \<Rightarrow> ('v, 'e) thread \<Rightarrow> bool" where
  "guard_inv h th =
     ((checked (pc th) \<longrightarrow> last_check h = Some True) \<and>
      (stored_self (pc th) \<longrightarrow> (L97, Set_current) \<in> set h))"







definition published :: "(nat \<times> 'v) list \<Rightarrow> ('v, 'e) shared \<Rightarrow> ('v, 'e) shared" where
  "published items sh =
     (if items = [] then sh else sh\<lparr>result := Some (snd (last items)), error := None\<rparr>)"
section \<open>Schedules and traces\<close>

lemma exec_append:
  "exec (as @ bs) c =
     (case exec as c of
        None \<Rightarrow> None
      | Some (tr, c') \<Rightarrow>
          (case exec bs c' of None \<Rightarrow> None | Some (tr', c'') \<Rightarrow> Some (tr @ tr', c'')))"
  by (induction as arbitrary: c) (auto split: option.splits)

lemma exec_split:
  "exec as c = Some (tr1 @ e # tr2, c') \<Longrightarrow>
     \<exists>as1 a as2 c1 c2. as = as1 @ a # as2 \<and> exec as1 c = Some (tr1, c1) \<and>
        step a c1 = Some (e, c2) \<and> exec as2 c2 = Some (tr2, c')"
proof (induction tr1 arbitrary: as c)
  case Nil
  then obtain a as2 where as: "as = a # as2" by (cases as) auto
  with Nil obtain c2 where "step a c = Some (e, c2)" "exec as2 c2 = Some (tr2, c')"
    by (auto split: option.splits)
  with as have "as = [] @ a # as2 \<and> exec [] c = Some ([], c) \<and>
        step a c = Some (e, c2) \<and> exec as2 c2 = Some (tr2, c')" by simp
  then show ?case by blast
next
  case (Cons x tr1)
  then obtain b bs where as: "as = b # bs" by (cases as) auto
  with Cons.prems obtain cb where b: "step b c = Some (x, cb)"
    and bs: "exec bs cb = Some (tr1 @ e # tr2, c')"
    by (auto split: option.splits)
  from Cons.IH [OF bs] obtain as1 a as2 c1 c2 where
    "bs = as1 @ a # as2" "exec as1 cb = Some (tr1, c1)" "step a c1 = Some (e, c2)"
    "exec as2 c2 = Some (tr2, c')" by blast
  with as b have "as = (b # as1) @ a # as2 \<and> exec (b # as1) c = Some (x # tr1, c1) \<and>
        step a c1 = Some (e, c2) \<and> exec as2 c2 = Some (tr2, c')" by simp
  then show ?case by blast
qed

lemma exec_invariant:
  assumes "exec as c = Some (tr, c')"
    and "I [] c"
    and "\<And>tr c a e c'. I tr c \<Longrightarrow> step a c = Some (e, c') \<Longrightarrow> I (tr @ [e]) c'"
  shows "I tr c'"
  using assms(1)
proof (induction as arbitrary: tr c' rule: rev_induct)
  case Nil
  with assms(2) show ?case by simp
next
  case (snoc a as)
  from snoc.prems obtain tr1 c1 e where 1: "exec as c = Some (tr1, c1)"
    and 2: "step a c1 = Some (e, c')" and 3: "tr = tr1 @ [e]"
    by (auto simp: exec_append split: option.splits)
  from assms(3) [OF snoc.IH [OF 1] 2] 3 show ?case by simp
qed

text \<open>What a step does to one thread and to the entries of the trace that are its own.\<close>

lemma step_cases:
  assumes "step a c = Some (e, c')"
  obtains
    (Run) cb i where "a = Run cb i" "e = Env a"
      "threads c' = threads c @ [new_thread cb i]" "mem c' = (mem c)\<lparr>result_state := STARTING\<rparr>"
  | (Cancel) u where "a = Cancel u" "e = Env a" "u < length (threads c)" "mem c' = mem c"
      "threads c' = (threads c)[u := (threads c ! u)\<lparr>cancel := True\<rparr>]"
  | (Render) r where "a = Render r" "e = Env a" "threads c' = threads c"
      "mem c' = (mem c)\<lparr>rc := r\<rparr>"
  | (Step) u ev th' where "a = Step u" "u < length (threads c)"
      "thread_step u (terminated c) (threads c ! u) (mem c) = Some (ev, th', mem c')"
      "e = By u (pc (threads c ! u)) ev" "threads c' = (threads c)[u := th']"
  using assms by (cases a) (auto split: if_splits option.splits)

lemma hist_append: "hist t (tr @ tr') = hist t tr @ hist t tr'"
  by (induction t tr rule: hist.induct) auto

lemma hist_mem: "(p, ev) \<in> set (hist t tr) \<longleftrightarrow> By t p ev \<in> set tr"
  by (induction t tr rule: hist.induct) auto

lemma local_invariant:
  assumes ex: "exec as (init st) = Some (tr, c)"
    and new: "\<And>cb i. Q [] (new_thread cb i)"
    and flag: "\<And>h th. Q h th \<Longrightarrow> Q h (th\<lparr>cancel := True\<rparr>)"
    and st: "\<And>h th t d sh ev th' sh'. Q h th \<Longrightarrow> thread_step t d th sh = Some (ev, th', sh')
               \<Longrightarrow> Q (h @ [(pc th, ev)]) th'"
  shows "(\<forall>t < length (threads c). Q (hist t tr) (threads c ! t)) \<and>
         (\<forall>t \<ge> length (threads c). hist t tr = [])"
proof (rule exec_invariant [OF ex, where I = "\<lambda>tr c.
         (\<forall>t < length (threads c). Q (hist t tr) (threads c ! t)) \<and>
         (\<forall>t \<ge> length (threads c). hist t tr = [])"])
  show "(\<forall>t<length (threads (init st)). Q (hist t []) (threads (init st) ! t)) \<and>
        (\<forall>t\<ge>length (threads (init st)). hist t [] = [])"
    by (simp add: init_def)
next
  fix tr c a e c'
  assume I: "(\<forall>t<length (threads c). Q (hist t tr) (threads c ! t)) \<and>
             (\<forall>t\<ge>length (threads c). hist t tr = [])"
    and s: "step a c = Some (e, c')"
  from s show "(\<forall>t<length (threads c'). Q (hist t (tr @ [e])) (threads c' ! t)) \<and>
               (\<forall>t\<ge>length (threads c'). hist t (tr @ [e]) = [])"
  proof (cases rule: step_cases)
    case (Run cb i)
    with I new show ?thesis
      by (auto simp: hist_append nth_append less_Suc_eq)
  next
    case (Cancel u)
    with I flag show ?thesis
      by (auto simp: hist_append nth_list_update)
  next
    case (Render r)
    with I show ?thesis by (auto simp: hist_append)
  next
    case (Step u ev th')
    with I st [OF _ Step(3)] show ?thesis
      by (auto simp: hist_append nth_list_update)
  qed
qed

lemma done_forever:
  "exec as c = Some (tr, c') \<Longrightarrow> t < length (threads c) \<Longrightarrow> pc (threads c ! t) = Done \<Longrightarrow>
     hist t tr = [] \<and> t < length (threads c') \<and> pc (threads c' ! t) = Done"
proof (induction as arbitrary: c tr)
  case Nil
  then show ?case by simp
next
  case (Cons a as)
  from Cons.prems(1) obtain e c1 tr1 where s: "step a c = Some (e, c1)"
    and r: "exec as c1 = Some (tr1, c')" and tr: "tr = e # tr1"
    by (auto split: option.splits)
  from s Cons.prems(2,3) have "t < length (threads c1) \<and> pc (threads c1 ! t) = Done \<and> hist t [e] = []"
    by (cases rule: step_cases) (auto simp: nth_append nth_list_update thread_step_def)
  with Cons.IH [OF r] tr hist_append [of t "[e]" tr1] show ?case by simp
qed

section \<open>The raise condition of the execution monitor\<close>

text \<open>
  Claim C7.  While a thread is inside a \<^verbatim>\<open>cancel_guard\<close> block with the trace function
  installed, a step raises the abort signal exactly when the thread's cancellation flag is set
  and there is no render context or the render context is not rendering; the raise takes the
  thread to the finally clause.  With the flag set and a render pass active, the step is the
  one the thread takes with the flag not set: the cancellation is suppressed for that step
  and execution continues.
\<close>

theorem monitor_raise_condition:
  assumes "pc th = L126 \<or> pc th = L131 \<or> pc th = L132_exit"
    and "intrusive_cancel th" and "settrace sh"
  shows "((\<exists>th' sh'. thread_step t d th sh = Some (Hook_raise, th', sh')) \<longleftrightarrow>
            cancel th \<and> (rc sh = None \<or> rc sh = Some False)) \<and>
         (cancel th \<and> (rc sh = None \<or> rc sh = Some False) \<longrightarrow>
            thread_step t d th sh = Some (Hook_raise, th\<lparr>pc := L155\<rparr>, sh)) \<and>
         (cancel th \<and> rc sh = Some True \<longrightarrow>
            thread_step t d th sh =
              map_option (\<lambda>(ev, th', sh'). (ev, th'\<lparr>cancel := True\<rparr>, sh'))
                (thread_step t d (th\<lparr>cancel := False\<rparr>) sh))"
proof -
  have h: "hook th sh \<longleftrightarrow> cancel th \<and> (rc sh = None \<or> rc sh = Some False)"
    using assms(2,3) by (auto simp: hook_def tracefunc_def split: option.splits)
  have raise: "thread_step t d th sh = Some (Hook_raise, th\<lparr>pc := L155\<rparr>, sh)" if "hook th sh"
    using assms(1) that by (elim disjE) (simp_all add: thread_step_def handler_def)
  have pass: "thread_step t d th sh \<noteq> Some (Hook_raise, th', sh')" if "\<not> hook th sh" for th' sh'
    using assms(1) that
    by (elim disjE)
      (simp_all add: thread_step_def handler_def
        split: nat.splits callback.splits ending.splits returned.splits option.splits
          generator.splits list.splits)
  have h0: "\<not> hook (th\<lparr>cancel := False\<rparr>) sh" by (simp add: hook_def tracefunc_def)
  have same: "thread_step t d th sh =
              map_option (\<lambda>(ev, th', sh'). (ev, th'\<lparr>cancel := True\<rparr>, sh'))
                (thread_step t d (th\<lparr>cancel := False\<rparr>) sh)"
    if "\<not> hook th sh" "cancel th"
    using assms(1) that h0
    by (elim disjE)
      (simp_all add: thread_step_def handler_def
        split: nat.splits callback.splits ending.splits returned.splits option.splits
          generator.splits list.splits)
  from h raise pass same show ?thesis by auto
qed

theorem monitor_raise_condition_witness:
  "(pc ((new_thread (Callback 1 (Returns (Value (7::nat)))) True)\<lparr>pc := L126, cancel := True\<rparr>
       :: (nat, string) thread) = L126 \<or> False) \<and>
   intrusive_cancel ((new_thread (Callback 1 (Returns (Value (7::nat)))) True)\<lparr>pc := L126, cancel := True\<rparr>
       :: (nat, string) thread) \<and>
   settrace (mem (init True :: (nat, string) config)) \<and>
   thread_step 0 (\<lambda>w. False)
     ((new_thread (Callback 1 (Returns (Value 7))) True)\<lparr>pc := L126, cancel := True\<rparr>)
     (mem (init True :: (nat, string) config)) =
   Some (Hook_raise,
         (new_thread (Callback 1 (Returns (Value 7))) True)\<lparr>pc := L155, cancel := True\<rparr>,
         mem (init True)) \<and>
   thread_step 0 (\<lambda>w. False)
     ((new_thread (Callback 1 (Returns (Value 7))) True)\<lparr>pc := L126, cancel := True\<rparr>)
     ((mem (init True :: (nat, string) config))\<lparr>rc := Some True\<rparr>) =
   Some (Guard_exit,
         (new_thread (Callback 1 (Returns (Value 7))) True)
            \<lparr>pc := L140, cancel := True, f_value := Some 7\<rparr>,
         (mem (init True))\<lparr>rc := Some True\<rparr>)"
  using monitor_raise_condition
    [of "(new_thread (Callback 1 (Returns (Value (7::nat)))) True)\<lparr>pc := L126, cancel := True\<rparr>
           :: (nat, string) thread"
        "mem (init True :: (nat, string) config)" 0 "\<lambda>w. False"]
    monitor_raise_condition
    [of "(new_thread (Callback 1 (Returns (Value (7::nat)))) True)\<lparr>pc := L126, cancel := True\<rparr>
           :: (nat, string) thread"
        "(mem (init True :: (nat, string) config))\<lparr>rc := Some True\<rparr>" 0 "\<lambda>w. False"]
  by (simp add: new_thread_def init_def thread_step_def hook_def tracefunc_def)

section \<open>Cancelling after the thread has exited\<close>





section \<open>The abort signal is swallowed\<close>





section \<open>Superseded while waiting\<close>

lemma waiting_inv_step:
  assumes "waiting_inv h th" and "thread_step t d th sh = Some (ev, th', sh')"
  shows "waiting_inv (h @ [(pc th, ev)]) th'"
  using assms
  by (cases "pc th";
      auto simp: thread_step_def handler_def waiting_inv_def before_check_def
        split: if_splits nat.splits callback.splits ending.splits returned.splits option.splits
          generator.splits list.splits)

lemma waiting_inv_reachable:
  assumes "exec as (init st) = Some (tr, c)" and "t < length (threads c)"
  shows "waiting_inv (hist t tr) (threads c ! t)"
proof -
  have "(\<forall>t < length (threads c). waiting_inv (hist t tr) (threads c ! t)) \<and>
        (\<forall>t \<ge> length (threads c). hist t tr = [])"
  proof (rule local_invariant [OF assms(1)])
    show "waiting_inv [] (new_thread cb i)" for cb i
      by (simp add: waiting_inv_def new_thread_def)
    show "waiting_inv h (th\<lparr>cancel := True\<rparr>)" if "waiting_inv h th" for h th
      using that by (simp add: waiting_inv_def)
    show "waiting_inv (h @ [(pc th, ev)]) th'"
      if "waiting_inv h th" "thread_step t d th sh = Some (ev, th', sh')" for h th t d sh ev th' sh'
      using that by (rule waiting_inv_step)
  qed
  with assms(2) show ?thesis by blast
qed

text \<open>
  Claim C8.  In every execution, a thread whose check at line 105 fails has joined a
  predecessor, is not the thread \<^verbatim>\<open>running_thread.current\<close> names, leaves the shared cells as
  they are at that step and has returned after it: it takes no further step.  All it did
  before was to take the pointer under the lock, set the state to \<open>WAITING\<close> and join;
  it never set the state to \<open>RUNNING\<close> and never wrote the result or the error.
\<close>

theorem superseded_while_waiting:
  assumes "exec as (init st) = Some (tr1 @ By t L105 (Is_current False) # tr2, c)"
  shows "(\<exists>as1 c1 c2. exec as1 (init st) = Some (tr1, c1) \<and> running_thread (mem c1) \<noteq> Some t \<and>
            step (Step t) c1 = Some (By t L105 (Is_current False), c2) \<and> mem c2 = mem c1 \<and>
            t < length (threads c2) \<and> pc (threads c2 ! t) = Done) \<and>
         (\<exists>w. By t L102 (Join w) \<in> set tr1) \<and>
         (\<forall>q ev. By t q ev \<in> set tr1 \<longrightarrow> early_event ev) \<and>
         hist t tr2 = []"
proof -
  from exec_split [OF assms] obtain as1 a as2 c1 c2 where
    1: "exec as1 (init st) = Some (tr1, c1)"
    and 2: "step a c1 = Some (By t L105 (Is_current False), c2)"
    and 3: "exec as2 c2 = Some (tr2, c)" by blast
  from 2 have 4: "a = Step t \<and> t < length (threads c1) \<and> pc (threads c1 ! t) = L105 \<and>
      running_thread (mem c1) \<noteq> Some t \<and> mem c2 = mem c1 \<and> t < length (threads c2) \<and>
      pc (threads c2 ! t) = Done"
  proof (cases rule: step_cases)
    case (Step u ev th')
    then have u: "u = t" "ev = Is_current False" "pc (threads c1 ! t) = L105" by auto
    from Step(3) u have "running_thread (mem c1) \<noteq> Some t \<and> mem c2 = mem c1 \<and> pc th' = Done"
      by (auto simp: thread_step_def split: if_splits)
    with Step u show ?thesis by auto
  qed auto
  from waiting_inv_reachable [OF 1] 4
  have 5: "(\<exists>w. (L102, Join w) \<in> set (hist t tr1)) \<and> (\<forall>x \<in> set (hist t tr1). early_event (snd x))"
    by (auto simp: waiting_inv_def before_check_def)
  then have 6: "(\<exists>w. By t L102 (Join w) \<in> set tr1) \<and> (\<forall>q ev. By t q ev \<in> set tr1 \<longrightarrow> early_event ev)"
    by (auto simp: hist_mem [symmetric])
  from done_forever [OF 3] 4 have "hist t tr2 = []" by blast
  with 1 2 4 6 show ?thesis by blast
qed

theorem superseded_while_waiting_witness:
  "\<exists>c. exec [Run (Callback 0 (Returns (Value (1::nat)))) True, Step 0, Step 0, Step 0, Step 0,
              Step 0, Run (Callback 0 (Returns (Value 2))) True, Step 1, Step 1, Step 1, Step 1,
              Step 1, Step 1, Run (Callback 0 (Returns (Value 3))) True, Step 2, Step 2, Step 2,
              Step 2, Step 2, Step 2, Step 0, Step 0, Step 0, Step 0, Step 0, Step 1, Step 1,
              Step 2, Step 2, Step 2]
          (init True :: (nat, string) config) =
        Some ([Env (Run (Callback 0 (Returns (Value 1))) True), By 0 L91 Acquire,
               By 0 L95 (Test_current False), By 0 L97 Set_current, By 0 L97_exit Release,
               By 0 L112 (Set_state RUNNING),
               Env (Run (Callback 0 (Returns (Value 2))) True), By 1 L91 Acquire,
               By 1 L95 (Test_current True), By 1 L96 (Copy_current (Some 0)),
               By 1 L97 Set_current, By 1 L97_exit Release, By 1 L99 (Set_state WAITING),
               Env (Run (Callback 0 (Returns (Value 3))) True), By 2 L91 Acquire,
               By 2 L95 (Test_current True), By 2 L96 (Copy_current (Some 1)),
               By 2 L97 Set_current, By 2 L97_exit Release, By 2 L99 (Set_state WAITING),
               By 0 L126 Guard_exit, By 0 L140 (Set_result (Some 1)),
               By 0 L141 (Set_error None), By 0 L142 (Is_current False),
               By 0 L155 (Is_current False), By 1 L102 (Join 0)] @
              By 1 L105 (Is_current False) #
              [By 2 L102 (Join 1), By 2 L105 (Is_current True), By 2 L112 (Set_state RUNNING)], c) \<and>
        result_state (mem c) = RUNNING \<and> running_thread (mem c) = Some 2 \<and>
        By 1 L102 (Join 0) \<in> set ([Env (Run (Callback 0 (Returns (Value 1))) True), By 0 L91 Acquire,
               By 0 L95 (Test_current False), By 0 L97 Set_current, By 0 L97_exit Release,
               By 0 L112 (Set_state RUNNING),
               Env (Run (Callback 0 (Returns (Value 2))) True), By 1 L91 Acquire,
               By 1 L95 (Test_current True), By 1 L96 (Copy_current (Some 0)),
               By 1 L97 Set_current, By 1 L97_exit Release, By 1 L99 (Set_state WAITING),
               Env (Run (Callback 0 (Returns (Value 3))) True), By 2 L91 Acquire,
               By 2 L95 (Test_current True), By 2 L96 (Copy_current (Some 1)),
               By 2 L97 Set_current, By 2 L97_exit Release, By 2 L99 (Set_state WAITING),
               By 0 L126 Guard_exit, By 0 L140 (Set_result (Some 1)),
               By 0 L141 (Set_error None), By 0 L142 (Is_current False),
               By 0 L155 (Is_current False), By 1 L102 (Join 0)] :: (nat, string) entry list) \<and>
        hist 1 ([By 2 L102 (Join 1), By 2 L105 (Is_current True), By 2 L112 (Set_state RUNNING)]
                  :: (nat, string) entry list) = []"
proof -
  obtain c where e: "exec [Run (Callback 0 (Returns (Value (1::nat)))) True, Step 0, Step 0, Step 0, Step 0,
              Step 0, Run (Callback 0 (Returns (Value 2))) True, Step 1, Step 1, Step 1, Step 1,
              Step 1, Step 1, Run (Callback 0 (Returns (Value 3))) True, Step 2, Step 2, Step 2,
              Step 2, Step 2, Step 2, Step 0, Step 0, Step 0, Step 0, Step 0, Step 1, Step 1,
              Step 2, Step 2, Step 2]
          (init True :: (nat, string) config) =
        Some ([Env (Run (Callback 0 (Returns (Value 1))) True), By 0 L91 Acquire,
               By 0 L95 (Test_current False), By 0 L97 Set_current, By 0 L97_exit Release,
               By 0 L112 (Set_state RUNNING),
               Env (Run (Callback 0 (Returns (Value 2))) True), By 1 L91 Acquire,
               By 1 L95 (Test_current True), By 1 L96 (Copy_current (Some 0)),
               By 1 L97 Set_current, By 1 L97_exit Release, By 1 L99 (Set_state WAITING),
               Env (Run (Callback 0 (Returns (Value 3))) True), By 2 L91 Acquire,
               By 2 L95 (Test_current True), By 2 L96 (Copy_current (Some 1)),
               By 2 L97 Set_current, By 2 L97_exit Release, By 2 L99 (Set_state WAITING),
               By 0 L126 Guard_exit, By 0 L140 (Set_result (Some 1)),
               By 0 L141 (Set_error None), By 0 L142 (Is_current False),
               By 0 L155 (Is_current False), By 1 L102 (Join 0)] @
              By 1 L105 (Is_current False) #
              [By 2 L102 (Join 1), By 2 L105 (Is_current True), By 2 L112 (Set_state RUNNING)], c)"
    by (simp add: thread_step_def init_def new_thread_def terminated_def hook_def tracefunc_def
        handler_def)
  from e have c: "result_state (mem c) = RUNNING" "running_thread (mem c) = Some 2"
    by (auto simp: thread_step_def init_def new_thread_def terminated_def hook_def tracefunc_def
        handler_def)
  note s = superseded_while_waiting [OF e]
  have j: "By 1 L102 (Join 0) \<in> set ([Env (Run (Callback 0 (Returns (Value 1))) True), By 0 L91 Acquire,
               By 0 L95 (Test_current False), By 0 L97 Set_current, By 0 L97_exit Release,
               By 0 L112 (Set_state RUNNING),
               Env (Run (Callback 0 (Returns (Value 2))) True), By 1 L91 Acquire,
               By 1 L95 (Test_current True), By 1 L96 (Copy_current (Some 0)),
               By 1 L97 Set_current, By 1 L97_exit Release, By 1 L99 (Set_state WAITING),
               Env (Run (Callback 0 (Returns (Value 3))) True), By 2 L91 Acquire,
               By 2 L95 (Test_current True), By 2 L96 (Copy_current (Some 1)),
               By 2 L97 Set_current, By 2 L97_exit Release, By 2 L99 (Set_state WAITING),
               By 0 L126 Guard_exit, By 0 L140 (Set_result (Some 1)),
               By 0 L141 (Set_error None), By 0 L142 (Is_current False),
               By 0 L155 (Is_current False), By 1 L102 (Join 0)] :: (nat, string) entry list)"
    by simp
  from s have h: "hist 1 ([By 2 L102 (Join 1), By 2 L105 (Is_current True), By 2 L112 (Set_state RUNNING)]
                  :: (nat, string) entry list) = []"
    by blast
  show ?thesis
    by (rule exI [of _ c]) (intro conjI e c j h)
qed

section \<open>Which writes are guarded by the identity check\<close>

text \<open>
  Claim C1 as stated fails.  With thread 0 started first and thread 1 second: after thread 1
  has stored itself in \<^verbatim>\<open>running_thread.current\<close>, thread 0 sets the state to \<open>RUNNING\<close>
  (line 112) and writes the result (line 140) while the pointer names thread 1; and a thread
  that has passed its check at line 142 sets the state to \<open>FINISHED\<close> (line 143) after
  thread 1 has taken the pointer.
\<close>

theorem single_writer_counterexample:
  "map_option (running_thread \<circ> mem \<circ> snd)
     (exec [Run (Callback 0 (Returns (Value (1::nat)))) True, Step 0, Step 0, Step 0, Step 0,
        Run (Callback 0 (Returns (Value 2))) True, Step 1, Step 1, Step 1, Step 1, Step 1]
        (init True :: (nat, string) config)) = Some (Some 1) \<and>
   map_option (last \<circ> fst)
     (exec [Run (Callback 0 (Returns (Value (1::nat)))) True, Step 0, Step 0, Step 0, Step 0,
        Run (Callback 0 (Returns (Value 2))) True, Step 1, Step 1, Step 1, Step 1, Step 1, Step 0]
        (init True :: (nat, string) config)) = Some (By 0 L112 (Set_state RUNNING)) \<and>
   map_option (running_thread \<circ> mem \<circ> snd)
     (exec [Run (Callback 0 (Returns (Value (1::nat)))) True, Step 0, Step 0, Step 0, Step 0,
        Run (Callback 0 (Returns (Value 2))) True, Step 1, Step 1, Step 1, Step 1, Step 1, Step 0, Step 0]
        (init True :: (nat, string) config)) = Some (Some 1) \<and>
   map_option (last \<circ> fst)
     (exec [Run (Callback 0 (Returns (Value (1::nat)))) True, Step 0, Step 0, Step 0, Step 0,
        Run (Callback 0 (Returns (Value 2))) True, Step 1, Step 1, Step 1, Step 1, Step 1, Step 0, Step 0, Step 0]
        (init True :: (nat, string) config)) = Some (By 0 L140 (Set_result (Some 1))) \<and>
   map_option (running_thread \<circ> mem \<circ> snd)
     (exec [Run (Callback 0 (Returns (Value (1::nat)))) True, Step 0, Step 0, Step 0, Step 0, Step 0, Step 0,
        Step 0, Step 0, Step 0, Run (Callback 0 (Returns (Value 2))) True, Step 1, Step 1, Step 1, Step 1]
        (init True :: (nat, string) config)) = Some (Some 1) \<and>
   map_option (last \<circ> fst)
     (exec [Run (Callback 0 (Returns (Value (1::nat)))) True, Step 0, Step 0, Step 0, Step 0, Step 0, Step 0,
        Step 0, Step 0, Step 0, Run (Callback 0 (Returns (Value 2))) True, Step 1, Step 1, Step 1, Step 1, Step 0]
        (init True :: (nat, string) config)) = Some (By 0 L143 (Set_state FINISHED))"
  by (simp add: thread_step_def init_def new_thread_def terminated_def hook_def tracefunc_def
      handler_def)

lemma last_check_snoc:
  "last_check (h @ [(p, ev)]) =
     (case check_outcome ev of Some b \<Rightarrow> Some b | None \<Rightarrow> last_check h)"
  by (induction h) (auto split: option.splits)

lemma guard_inv_step:
  assumes "guard_inv h th" and "thread_step t d th sh = Some (ev, th', sh')"
  shows "guard_inv (h @ [(pc th, ev)]) th'"
  using assms
  by (cases "pc th";
      auto simp: thread_step_def handler_def guard_inv_def checked_def stored_self_def
        last_check_snoc
        split: if_splits nat.splits callback.splits ending.splits returned.splits option.splits
          generator.splits list.splits)

lemma guard_inv_reachable:
  assumes "exec as (init st) = Some (tr, c)" and "t < length (threads c)"
  shows "guard_inv (hist t tr) (threads c ! t)"
proof -
  have "(\<forall>t < length (threads c). guard_inv (hist t tr) (threads c ! t)) \<and>
        (\<forall>t \<ge> length (threads c). hist t tr = [])"
  proof (rule local_invariant [OF assms(1)])
    show "guard_inv [] (new_thread cb i)" for cb i
      by (simp add: guard_inv_def new_thread_def checked_def stored_self_def)
    show "guard_inv h (th\<lparr>cancel := True\<rparr>)" if "guard_inv h th" for h th
      using that by (simp add: guard_inv_def)
    show "guard_inv (h @ [(pc th, ev)]) th'"
      if "guard_inv h th" "thread_step t d th sh = Some (ev, th', sh')" for h th t d sh ev th' sh'
      using that by (rule guard_inv_step)
  qed
  with assms(2) show ?thesis by blast
qed

lemma last_check_None:
  "last_check (hist t tr) = None \<Longrightarrow> By t q (Is_current b) \<notin> set tr"
proof (induction tr)
  case Nil
  then show ?case by simp
next
  case (Cons x tr)
  then show ?case
    by (cases x) (auto split: option.splits if_splits)
qed

lemma last_check_split:
  "last_check (hist t tr) = Some b \<Longrightarrow>
     \<exists>tr0 q tr'. tr = tr0 @ By t q (Is_current b) # tr' \<and>
        (\<forall>q' b'. By t q' (Is_current b') \<notin> set tr')"
proof (induction tr)
  case Nil
  then show ?case by simp
next
  case (Cons x tr)
  show ?case
  proof (cases "last_check (hist t tr)")
    case None
    with Cons.prems obtain q where x: "x = By t q (Is_current b)"
      by (cases x) (auto split: if_splits elim: check_outcome.elims)
    from None have "\<forall>q' b'. By t q' (Is_current b') \<notin> set tr"
      by (simp add: last_check_None)
    with x have "x # tr = [] @ By t q (Is_current b) # tr \<and>
        (\<forall>q' b'. By t q' (Is_current b') \<notin> set tr)" by simp
    then show ?thesis by blast
  next
    case (Some b0)
    with Cons.prems have "b0 = b"
      by (cases x) (auto split: if_splits)
    with Some Cons.IH obtain tr0 q tr' where "tr = tr0 @ By t q (Is_current b) # tr'"
      "\<forall>q' b'. By t q' (Is_current b') \<notin> set tr'" by blast
    then have "x # tr = (x # tr0) @ By t q (Is_current b) # tr' \<and>
        (\<forall>q' b'. By t q' (Is_current b') \<notin> set tr')" by simp
    then show ?thesis by blast
  qed
qed

lemma check_sound:
  assumes "step a c = Some (By t q (Is_current b), c')"
  shows "a = Step t \<and> b = (running_thread (mem c) = Some t)"
  using assms
proof (cases rule: step_cases)
  case (Step u ev th')
  then have u: "u = t" "ev = Is_current b" "q = pc (threads c ! t)" by auto
  from Step(3) u have "b = (running_thread (mem c) = Some t)"
    by (cases "pc (threads c ! t)";
        auto simp: thread_step_def handler_def
          split: if_splits nat.splits callback.splits ending.splits returned.splits
            option.splits generator.splits list.splits)
  with u Step show ?thesis by simp
qed auto

lemma is_write_cases:
  assumes "is_write ev"
  obtains s where "ev = Set_state s" | v where "ev = Set_result v" | x where "ev = Set_error x"
  using assms by (cases ev) simp_all

lemma state_write_pc:
  assumes "thread_step t d th sh = Some (Set_state s, th', sh')"
  shows "stored_self (pc th) \<and> (s = FINISHED \<or> s = ERROR \<or> s = CANCELLED \<longrightarrow>
            pc th \<in> {L138, L143, L148, L159})"
  using assms
  by (cases "pc th";
      auto simp: thread_step_def handler_def stored_self_def
        split: if_splits nat.splits callback.splits ending.splits returned.splits
          option.splits generator.splits list.splits)

lemma result_write_pc:
  assumes "thread_step t d th sh = Some (Set_result v, th', sh')"
  shows "stored_self (pc th)"
  using assms
  by (cases "pc th";
      auto simp: thread_step_def handler_def stored_self_def
        split: if_splits nat.splits callback.splits ending.splits returned.splits
          option.splits generator.splits list.splits)

lemma error_write_pc:
  assumes "thread_step t d th sh = Some (Set_error x, th', sh')"
  shows "stored_self (pc th)"
  using assms
  by (cases "pc th";
      auto simp: thread_step_def handler_def stored_self_def
        split: if_splits nat.splits callback.splits ending.splits returned.splits
          option.splits generator.splits list.splits)

lemma write_pc:
  assumes "step a c = Some (By t p ev, c')" and "is_write ev"
  shows "a = Step t \<and> t < length (threads c) \<and> pc (threads c ! t) = p \<and> stored_self p \<and>
     (ev = Set_state FINISHED \<or> ev = Set_state ERROR \<or> ev = Set_state CANCELLED \<longrightarrow>
        p \<in> {L138, L143, L148, L159})"
  using assms(1)
proof (cases rule: step_cases)
  case (Step u ev' th')
  then have u: "u = t" "ev' = ev" "p = pc (threads c ! t)" by auto
  note s = Step(3) [unfolded u(1,2)]
  from assms(2) have "stored_self (pc (threads c ! t)) \<and>
     (ev = Set_state FINISHED \<or> ev = Set_state ERROR \<or> ev = Set_state CANCELLED \<longrightarrow>
        pc (threads c ! t) \<in> {L138, L143, L148, L159})"
  proof (cases rule: is_write_cases)
    case (1 s')
    with state_write_pc [OF s [unfolded 1]] show ?thesis by blast
  next
    case (2 v)
    with result_write_pc [OF s [unfolded 2]] show ?thesis by simp
  next
    case (3 x)
    with error_write_pc [OF s [unfolded 3]] show ?thesis by simp
  qed
  with u Step show ?thesis by simp
qed auto

text \<open>
  Claim C1, amended.  In every execution, a thread that sets the state, the result or the
  error has stored itself in \<^verbatim>\<open>running_thread.current\<close> before (line 97).  A transition to
  \<open>FINISHED\<close>, \<open>ERROR\<close> or \<open>CANCELLED\<close> is moreover applied only at line 138, 143, 148 or
  159 and only by a thread whose most recent identity check succeeded: at the step of that
  check, \<^verbatim>\<open>running_thread.current\<close> named this thread.  The check and the write are separate
  steps.
\<close>

theorem writes_after_own_check:
  assumes "exec as (init st) = Some (tr1 @ By t p ev # tr2, c)" and "is_write ev"
  shows "By t L97 Set_current \<in> set tr1 \<and>
    (ev = Set_state FINISHED \<or> ev = Set_state ERROR \<or> ev = Set_state CANCELLED \<longrightarrow>
       p \<in> {L138, L143, L148, L159} \<and> last_check (hist t tr1) = Some True \<and>
       (\<exists>tr0 q tr' as0 c0 c0'. tr1 = tr0 @ By t q (Is_current True) # tr' \<and>
           (\<forall>q' b. By t q' (Is_current b) \<notin> set tr') \<and>
           exec as0 (init st) = Some (tr0, c0) \<and> running_thread (mem c0) = Some t \<and>
           step (Step t) c0 = Some (By t q (Is_current True), c0')))"
proof (intro conjI impI)
  from exec_split [OF assms(1)] obtain as1 a as2 c1 c2 where
    1: "exec as1 (init st) = Some (tr1, c1)"
    and 2: "step a c1 = Some (By t p ev, c2)" by blast
  note w = write_pc [OF 2 assms(2)]
  from w have 3: "t < length (threads c1)" "pc (threads c1 ! t) = p" "stored_self p"
    by simp_all
  note i = guard_inv_reachable [OF 1 3(1)]
  from i 3(2,3) have "(L97, Set_current) \<in> set (hist t tr1)"
    by (simp add: guard_inv_def)
  then show "By t L97 Set_current \<in> set tr1" by (simp add: hist_mem)
  assume f: "ev = Set_state FINISHED \<or> ev = Set_state ERROR \<or> ev = Set_state CANCELLED"
  with w show p: "p \<in> {L138, L143, L148, L159}" by blast
  with i 3(2) show 4: "last_check (hist t tr1) = Some True"
    by (auto simp: guard_inv_def checked_def)
  from last_check_split [OF 4] obtain tr0 q tr' where
    5: "tr1 = tr0 @ By t q (Is_current True) # tr'"
    and 6: "\<forall>q' b. By t q' (Is_current b) \<notin> set tr'" by blast
  from exec_split [OF 1 [unfolded 5]] obtain as0 a0 c0 c0' where
    7: "exec as0 (init st) = Some (tr0, c0)"
    and 8: "step a0 c0 = Some (By t q (Is_current True), c0')" by blast
  from check_sound [OF 8] have 9: "a0 = Step t" "running_thread (mem c0) = Some t" by simp_all
  from 5 6 7 8 9 show "\<exists>tr0 q tr' as0 c0 c0'. tr1 = tr0 @ By t q (Is_current True) # tr' \<and>
           (\<forall>q' b. By t q' (Is_current b) \<notin> set tr') \<and>
           exec as0 (init st) = Some (tr0, c0) \<and> running_thread (mem c0) = Some t \<and>
           step (Step t) c0 = Some (By t q (Is_current True), c0')" by blast
qed

theorem writes_after_own_check_witness:
  "\<exists>c. exec [Run (Callback 0 (Returns (Value (42::nat)))) True, Step 0, Step 0, Step 0, Step 0,
              Step 0, Step 0, Step 0, Step 0, Step 0, Step 0] (init True :: (nat, string) config) =
        Some ([Env (Run (Callback 0 (Returns (Value 42))) True), By 0 L91 Acquire,
             By 0 L95 (Test_current False), By 0 L97 Set_current, By 0 L97_exit Release,
             By 0 L112 (Set_state RUNNING), By 0 L126 Guard_exit,
             By 0 L140 (Set_result (Some 42)), By 0 L141 (Set_error None),
             By 0 L142 (Is_current True)] @
              By 0 L143 (Set_state FINISHED) # [], c) \<and>
        result_state (mem c) = FINISHED \<and>
        last_check (hist 0 ([Env (Run (Callback 0 (Returns (Value 42))) True), By 0 L91 Acquire,
             By 0 L95 (Test_current False), By 0 L97 Set_current, By 0 L97_exit Release,
             By 0 L112 (Set_state RUNNING), By 0 L126 Guard_exit,
             By 0 L140 (Set_result (Some 42)), By 0 L141 (Set_error None),
             By 0 L142 (Is_current True)] :: (nat, string) entry list)) = Some True"
proof -
  obtain c where e: "exec [Run (Callback 0 (Returns (Value (42::nat)))) True, Step 0, Step 0, Step 0, Step 0,
              Step 0, Step 0, Step 0, Step 0, Step 0, Step 0] (init True :: (nat, string) config) =
        Some ([Env (Run (Callback 0 (Returns (Value 42))) True), By 0 L91 Acquire,
             By 0 L95 (Test_current False), By 0 L97 Set_current, By 0 L97_exit Release,
             By 0 L112 (Set_state RUNNING), By 0 L126 Guard_exit,
             By 0 L140 (Set_result (Some 42)), By 0 L141 (Set_error None),
             By 0 L142 (Is_current True)] @
              By 0 L143 (Set_state FINISHED) # [], c)"
    by (simp add: thread_step_def init_def new_thread_def terminated_def hook_def tracefunc_def
        handler_def)
  from e have c: "result_state (mem c) = FINISHED"
    by (auto simp: thread_step_def init_def new_thread_def terminated_def hook_def tracefunc_def
        handler_def)
  have "is_write (Set_state FINISHED :: (nat, string) event)" by simp
  from writes_after_own_check [OF e this]
  have s: "last_check (hist 0 ([Env (Run (Callback 0 (Returns (Value 42))) True), By 0 L91 Acquire,
             By 0 L95 (Test_current False), By 0 L97 Set_current, By 0 L97_exit Release,
             By 0 L112 (Set_state RUNNING), By 0 L126 Guard_exit,
             By 0 L140 (Set_result (Some 42)), By 0 L141 (Set_error None),
             By 0 L142 (Is_current True)] :: (nat, string) entry list)) = Some True"
    by blast
  show ?thesis
    by (rule exI [of _ c]) (intro conjI e c s)
qed

section \<open>The finally clause and the state CANCELLED\<close>







section \<open>A thread running on its own\<close>


lemma hook_locals [simp]:
  "hook (th\<lparr>steps_left := n\<rparr>) sh = hook th sh"
  "hook (th\<lparr>pc := p\<rparr>) sh = hook th sh"
  "hook (th\<lparr>gen := g\<rparr>) sh = hook th sh"
  "hook (th\<lparr>f_value := v\<rparr>) sh = hook th sh"
  "hook (th\<lparr>exc := x\<rparr>) sh = hook th sh"
  "hook th (sh\<lparr>result := r\<rparr>) = hook th sh"
  "hook th (sh\<lparr>error := e\<rparr>) = hook th sh"
  "hook th (sh\<lparr>result_state := s\<rparr>) = hook th sh"
  "hook th (sh\<lparr>running_thread := w\<rparr>) = hook th sh"
  by (simp_all add: hook_def)








section \<open>Publication of a single-shot result\<close>



section \<open>Publication of a lazy sequence\<close>

lemma hook_published [simp]: "hook th (published items sh) = hook th sh"
  by (simp add: published_def)

lemma running_thread_published [simp]:
  "running_thread (published items sh) = running_thread sh"
  by (simp add: published_def)












section \<open>Without intrusive cancellation\<close>





end
